theory Spec2Isabelle
  imports Main
begin

section \<open>JavaScript strings and the string operations the program uses\<close>

text \<open>
  A JavaScript string is a sequence of UTF-16 code units; the model keeps it as the list
  of their numeric values, so that the display separator (U+0020, U+2014, U+0020: a space, an em dash, a space)
  is three units, as in the program. \<open>str\<close> turns an ASCII literal into such
  a list.
\<close>

type_synonym jsstring = "nat list"

definition str :: "string \<Rightarrow> jsstring" where
  "str s = map of_char s"

text \<open>
  \<open>String.prototype.trim\<close> removes WhiteSpace and LineTerminator code units from both
  ends: TAB, LF, VT, FF, CR, SP, NBSP, U+1680, U+2000..U+200A, LS, PS, U+202F, U+205F,
  U+3000 and U+FEFF.
\<close>

definition is_space :: "nat \<Rightarrow> bool" where
  "is_space c = (c \<in> {9, 10, 11, 12, 13, 32, 160, 5760, 8232, 8233, 8239, 8287, 12288, 65279}
                 \<or> (8192 \<le> c \<and> c \<le> 8202))"

definition trim :: "jsstring \<Rightarrow> jsstring" where
  "trim s = rev (dropWhile is_space (rev (dropWhile is_space s)))"

text \<open>\<open>s.startsWith(p)\<close> and \<open>s.includes(q)\<close>: \<open>q\<close> occurs in \<open>s\<close> as a contiguous run.\<close>

definition startsWith :: "'a list \<Rightarrow> 'a list \<Rightarrow> bool" where
  "startsWith s p = (take (length p) s = p)"

fun js_includes :: "'a list \<Rightarrow> 'a list \<Rightarrow> bool" where
  "js_includes [] q = (q = [])"
| "js_includes (c # cs) q = (startsWith (c # cs) q \<or> js_includes cs q)"

text \<open>
  \<open>Array.prototype.indexOf\<close>: the first position holding the value, \<open>-1\<close> when there
  is none.
\<close>

fun indexOf :: "'a list \<Rightarrow> 'a \<Rightarrow> int" where
  "indexOf [] v = -1"
| "indexOf (x # xs) v =
     (if x = v then 0 else (let r = indexOf xs v in if r < 0 then -1 else r + 1))"

text \<open>
  \<open>toLowerCase\<close> is a built-in of the language whose Unicode tables are not part of the
  repository: the functions below take it as the parameter \<open>lower\<close>, and every theorem
  holds for whatever function is supplied. \<open>ascii_lower\<close> is the instance used to run
  examples: it agrees with the built-in on strings whose cased characters are ASCII.
\<close>

definition ascii_lower :: "jsstring \<Rightarrow> jsstring" where
  "ascii_lower s = map (\<lambda>c. if 65 \<le> c \<and> c \<le> 90 then c + 32 else c) s"

section \<open>The selection state: a JavaScript \<open>Set\<close> of display strings\<close>

text \<open>
  A \<open>Set\<close> iterates in insertion order and holds each value once: the model is the list
  of its members in that order. \<open>add\<close> of a member changes nothing, \<open>delete\<close> removes
  the value, \<open>has\<close> is membership.
\<close>

type_synonym selection = "jsstring list"

definition set_add :: "selection \<Rightarrow> jsstring \<Rightarrow> selection" where
  "set_add s v = (if v \<in> set s then s else s @ [v])"

definition set_delete :: "selection \<Rightarrow> jsstring \<Rightarrow> selection" where
  "set_delete s v = filter (\<lambda>x. x \<noteq> v) s"

definition set_has :: "selection \<Rightarrow> jsstring \<Rightarrow> bool" where
  "set_has s v = (v \<in> set s)"

section \<open>\<open>selectWithEnquirerMulti\<close>: the filter/pick loop\<close>

text \<open>
  The function modelled here is \<open>selectWithEnquirerMulti\<close> of
  \<open>src/unnamed/part_001\<close> (lines 78 to 202). The second file of
  \<open>src/unnamed/part_002\<close> (lines 374 to 488) has the same code, and
  \<open>src/unnamed/part_000\<close> (lines 111 to 190) has it without the two \<open>try\<close>
  blocks around the prompts.

  A prompt's \<open>run()\<close> either resolves with a value or rejects when the operator
  interrupts it.
\<close>

datatype 'a reply = Aborted | Submitted 'a

definition TOGGLE :: jsstring where
  "TOGGLE = str ''__TOGGLE__''"

definition DONE :: jsstring where
  "DONE = str '':done''"

definition RESET :: jsstring where
  "RESET = str '':reset''"

text \<open>
  \<open>visible\<close>: the items paired with their original index, all of them when the
  lower-cased query is empty, otherwise those whose lower-cased text includes it.
\<close>

definition visible_items :: "(jsstring \<Rightarrow> jsstring) \<Rightarrow> jsstring list \<Rightarrow> jsstring \<Rightarrow> (jsstring \<times> nat) list" where
  "visible_items lower items flt =
     (let q = lower flt in
      if q = [] then zip items [0 ..< length items]
      else filter (\<lambda>(it, idx). js_includes (lower it) q) (zip items [0 ..< length items]))"

text \<open>
  The choices handed to the \<open>MultiSelect\<close> prompt: the toggle entry, a separator, then
  one entry per visible item, pre-selected exactly when the item is in the selection
  state. (The \<open>message\<close> field repeats the name and is display only; it is left out.)
\<close>

datatype choice = Choice (ch_name: jsstring) (ch_value: jsstring) (ch_selected: bool) | Separator

definition choices :: "(jsstring \<times> nat) list \<Rightarrow> selection \<Rightarrow> choice list" where
  "choices visible selectedSet =
     Choice TOGGLE TOGGLE False # Separator #
     map (\<lambda>(it, idx). Choice it it (set_has selectedSet it)) visible"

text \<open>
  What the prompt library can resolve with: values of entries that were presented
  (a separator has no value and cannot be picked).
\<close>

fun choice_values :: "choice list \<Rightarrow> jsstring list" where
  "choice_values [] = []"
| "choice_values (Separator # cs) = choice_values cs"
| "choice_values (Choice n v s # cs) = v # choice_values cs"

definition submittable :: "choice list \<Rightarrow> jsstring list \<Rightarrow> bool" where
  "submittable cs result = list_all (\<lambda>v. v \<in> set (choice_values cs)) result"

definition delete_visible :: "(jsstring \<times> nat) list \<Rightarrow> selection \<Rightarrow> selection" where
  "delete_visible visible selectedSet = fold (\<lambda>(it, idx) s. set_delete s it) visible selectedSet"

definition add_visible :: "(jsstring \<times> nat) list \<Rightarrow> selection \<Rightarrow> selection" where
  "add_visible visible selectedSet = fold (\<lambda>(it, idx) s. set_add s it) visible selectedSet"

definition add_values :: "jsstring list \<Rightarrow> selection \<Rightarrow> selection" where
  "add_values vs selectedSet = fold (\<lambda>v s. set_add s v) vs selectedSet"

text \<open>The update of the selection state after a submitted pick.\<close>

definition update_selection :: "selection \<Rightarrow> (jsstring \<times> nat) list \<Rightarrow> jsstring list \<Rightarrow> selection" where
  "update_selection selectedSet visible result =
     (if TOGGLE \<in> set result then
        (let rest = filter (\<lambda>v. v \<noteq> TOGGLE) result in
         if length rest = 0 then
           (let allSelected = list_all (\<lambda>(it, idx). set_has selectedSet it) visible in
            if allSelected then delete_visible visible selectedSet
            else add_visible visible selectedSet)
         else add_values rest (delete_visible visible selectedSet))
      else add_values result (delete_visible visible selectedSet))"

text \<open>
  The value returned at \<open>:done\<close>: each member resolved with \<open>indexOf\<close>, negative
  results dropped.
\<close>

definition done_result :: "jsstring list \<Rightarrow> selection \<Rightarrow> int list" where
  "done_result items selectedSet = filter (\<lambda>i. i \<ge> 0) (map (\<lambda>v. indexOf items v) selectedSet)"

text \<open>
  One pass through the body of \<open>while (true)\<close>. The filter prompt decides whether the
  function returns, the loop continues at once (\<open>:reset\<close>, or no item matches), or the
  pick prompt is shown for a visible subset.
\<close>

datatype filter_outcome = FReturn "int list" | FContinue selection | FPick "(jsstring \<times> nat) list"

definition filter_step :: "(jsstring \<Rightarrow> jsstring) \<Rightarrow> jsstring list \<Rightarrow> selection \<Rightarrow> jsstring reply \<Rightarrow> filter_outcome" where
  "filter_step lower items selectedSet f =
     (case f of
        Aborted \<Rightarrow> FReturn []
      | Submitted raw \<Rightarrow>
          (let flt = trim raw in
           if flt = DONE then FReturn (done_result items selectedSet)
           else if flt = RESET then FContinue []
           else (let visible = visible_items lower items flt in
                 if length visible = 0 then FContinue selectedSet
                 else FPick visible)))"

datatype outcome = Return "int list" | Continue selection

type_synonym round = "jsstring reply \<times> jsstring list reply"

definition iteration :: "(jsstring \<Rightarrow> jsstring) \<Rightarrow> jsstring list \<Rightarrow> selection \<Rightarrow> round \<Rightarrow> outcome" where
  "iteration lower items selectedSet r =
     (case filter_step lower items selectedSet (fst r) of
        FReturn idxs \<Rightarrow> Return idxs
      | FContinue s \<Rightarrow> Continue s
      | FPick visible \<Rightarrow>
          (case snd r of
             Aborted \<Rightarrow> Return []
           | Submitted result \<Rightarrow> Continue (update_selection selectedSet visible result)))"

text \<open>
  The loop over the operator's replies, one \<open>round\<close> per pass: the reply to the filter
  prompt and the reply to the pick prompt (read only when that prompt is shown).
  \<open>Continue\<close> at the end of the replies means the function is still waiting at the
  filter prompt with that selection state.
\<close>

fun run_rounds :: "(jsstring \<Rightarrow> jsstring) \<Rightarrow> jsstring list \<Rightarrow> selection \<Rightarrow> round list \<Rightarrow> outcome" where
  "run_rounds lower items selectedSet [] = Continue selectedSet"
| "run_rounds lower items selectedSet (r # rs) =
     (case iteration lower items selectedSet r of
        Return idxs \<Rightarrow> Return idxs
      | Continue s \<Rightarrow> run_rounds lower items s rs)"

definition selectWithEnquirerMulti :: "(jsstring \<Rightarrow> jsstring) \<Rightarrow> jsstring list \<Rightarrow> round list \<Rightarrow> int list option" where
  "selectWithEnquirerMulti lower items rounds =
     (case run_rounds lower items [] rounds of Return idxs \<Rightarrow> Some idxs | Continue s \<Rightarrow> None)"

text \<open>
  A sequence of rounds in which every submitted pick is one the prompt could have
  resolved with, given the choices presented in that round.
\<close>

definition round_ok :: "(jsstring \<Rightarrow> jsstring) \<Rightarrow> jsstring list \<Rightarrow> selection \<Rightarrow> round \<Rightarrow> bool" where
  "round_ok lower items selectedSet r =
     (case filter_step lower items selectedSet (fst r) of
        FPick visible \<Rightarrow>
          (case snd r of Aborted \<Rightarrow> True
           | Submitted result \<Rightarrow> submittable (choices visible selectedSet) result)
      | _ \<Rightarrow> True)"

fun rounds_ok :: "(jsstring \<Rightarrow> jsstring) \<Rightarrow> jsstring list \<Rightarrow> selection \<Rightarrow> round list \<Rightarrow> bool" where
  "rounds_ok lower items selectedSet [] = True"
| "rounds_ok lower items selectedSet (r # rs) =
     (round_ok lower items selectedSet r \<and>
      (case iteration lower items selectedSet r of
         Return idxs \<Rightarrow> True
       | Continue s \<Rightarrow> rounds_ok lower items s rs))"

section \<open>\<open>selectWithFzf\<close>: reading the indices back from the fuzzy finder\<close>

text \<open>
  \<open>String.prototype.split(sep)\<close>: the pieces between the occurrences of \<open>sep\<close>, found
  from the left without overlap; an empty separator splits into single code units.
  \<open>split_from sep cur rest\<close> scans \<open>rest\<close> with \<open>cur\<close> the piece read so far.
\<close>

fun split_from :: "'a list \<Rightarrow> 'a list \<Rightarrow> 'a list \<Rightarrow> 'a list list" where
  "split_from sep cur [] = [cur]"
| "split_from sep cur (c # cs) =
     (if startsWith (c # cs) sep then cur # split_from sep [] (drop (length sep - 1) cs)
      else split_from sep (cur @ [c]) cs)"

definition js_split :: "'a list \<Rightarrow> 'a list \<Rightarrow> 'a list list" where
  "js_split s sep = (if sep = [] then map (\<lambda>c. [c]) s else split_from sep [] s)"

text \<open>\<open>xs[i]\<close> for a literal position: \<open>undefined\<close> (\<open>None\<close>) past the end.\<close>

fun nth_opt :: "'a list \<Rightarrow> nat \<Rightarrow> 'a option" where
  "nth_opt [] n = None"
| "nth_opt (x # xs) 0 = Some x"
| "nth_opt (x # xs) (Suc n) = nth_opt xs n"

text \<open>
  Numbers: \<open>parseInt\<close> gives \<open>NaN\<close> or an integer. The model keeps the integer exact;
  a double is exact up to \<open>2^53\<close>, and beyond that it stays above every array length,
  so the comparisons below decide the same way.
\<close>

datatype jsnum = NaN | Num int

definition is_digit :: "nat \<Rightarrow> bool" where
  "is_digit c = (48 \<le> c \<and> c \<le> 57)"

definition digits_value :: "nat list \<Rightarrow> int" where
  "digits_value ds = foldl (\<lambda>acc d. 10 * acc + (int d - 48)) 0 ds"

text \<open>
  \<open>parseInt(s, 10)\<close>: skip leading white space, read an optional sign, then the longest
  run of decimal digits; \<open>NaN\<close> when that run is empty.
\<close>

definition parseInt :: "jsstring \<Rightarrow> jsnum" where
  "parseInt s =
     (let t = dropWhile is_space s;
          neg = (t \<noteq> [] \<and> hd t = 45);
          u = (if t \<noteq> [] \<and> (hd t = 45 \<or> hd t = 43) then tl t else t);
          ds = takeWhile is_digit u
      in if ds = [] then NaN else Num (if neg then - digits_value ds else digits_value ds))"

definition num_minus_1 :: "jsnum \<Rightarrow> jsnum" where
  "num_minus_1 x = (case x of NaN \<Rightarrow> NaN | Num n \<Rightarrow> Num (n - 1))"

text \<open>\<open>i >= 0 && i < items.length\<close>; every comparison with \<open>NaN\<close> is false.\<close>

definition in_range :: "jsnum \<Rightarrow> nat \<Rightarrow> bool" where
  "in_range x len = (case x of NaN \<Rightarrow> False | Num n \<Rightarrow> n \<ge> 0 \<and> n < int len)"

text \<open>\<open>line.split("\t")[0]\<close>; \<open>parseInt\<close> would read \<open>undefined\<close> as that word.\<close>

definition first_field :: "jsstring \<Rightarrow> jsstring" where
  "first_field line = (case nth_opt (js_split line [9]) 0 of None \<Rightarrow> str ''undefined'' | Some tok \<Rightarrow> tok)"

text \<open>The \<open>close\<close> handler: \<open>out\<close> is everything the subprocess wrote to its output.\<close>

definition fzf_close :: "jsstring list \<Rightarrow> jsstring \<Rightarrow> jsnum list" where
  "fzf_close items out =
     (if trim out = [] then []
      else filter (\<lambda>i. in_range i (length items))
             (map (\<lambda>line. num_minus_1 (parseInt (first_field line))) (js_split (trim out) [10])))"

text \<open>
  \<open>selectWithFzf\<close> of \<open>src/index.js\<close> (lines 27 to 58; \<open>src/unnamed/part_001\<close>
  has the same code): \<open>null\<close> (\<open>None\<close>) when the tool is absent, the empty list for
  an empty item list without starting the subprocess, otherwise what the \<open>close\<close>
  handler resolves. The prompt label and the \<open>multi\<close> flag only change the command
  line of the subprocess, whose output \<open>out\<close> is a parameter here.
\<close>

definition selectWithFzf :: "bool \<Rightarrow> jsstring list \<Rightarrow> jsstring \<Rightarrow> jsnum list option" where
  "selectWithFzf has_fzf items out =
     (if \<not> has_fzf then None
      else if length items = 0 then Some []
      else Some (fzf_close items out))"

text \<open>
  The repository holds two more variants of \<open>selectWithFzf\<close>. The one of
  \<open>src/unnamed/part_002\<close> (first file) puts a select-all line in front of the items
  when \<open>multi\<close> is set, numbers the lines from 0, and resolves every index when line 0
  is among the output.
\<close>

definition fzf_close_select_all :: "jsstring list \<Rightarrow> bool \<Rightarrow> jsstring \<Rightarrow> jsnum list" where
  "fzf_close_select_all items hasToggle out =
     (if trim out = [] then []
      else
        (let idxs = map (\<lambda>line. parseInt (first_field line)) (js_split (trim out) [10]) in
         if hasToggle \<and> Num 0 \<in> set idxs then map (\<lambda>i. Num (int i)) [0 ..< length items]
         else if hasToggle then filter (\<lambda>i. in_range i (length items)) (map num_minus_1 idxs)
         else filter (\<lambda>i. in_range i (length items)) idxs))"

definition selectWithFzf_select_all :: "bool \<Rightarrow> jsstring list \<Rightarrow> bool \<Rightarrow> jsstring \<Rightarrow> jsnum list option" where
  "selectWithFzf_select_all fzf items multi out =
     (if \<not> fzf then None
      else if length items = 0 then Some []
      else Some (fzf_close_select_all items multi out))"

text \<open>
  The one of \<open>src/unnamed/part_000\<close> and \<open>src/unnamed/part_002\<close> (second file) trims
  the leading field \<open>line.split("\t", 1)[0]\<close> and maps \<open>NaN\<close> to \<open>-1\<close> before the
  range filter. (\<open>split\<close> with a non-empty separator never gives an empty array, so
  the field is always there.)
\<close>

definition index_of_line :: "jsstring \<Rightarrow> jsnum" where
  "index_of_line line =
     (let tok = (case take 1 (js_split line [9]) of [] \<Rightarrow> [] | t # ts \<Rightarrow> trim t);
          n = parseInt tok
      in case n of NaN \<Rightarrow> Num (- 1) | Num k \<Rightarrow> Num (k - 1))"

definition fzf_close_ctrl_a :: "jsstring list \<Rightarrow> jsstring \<Rightarrow> jsnum list" where
  "fzf_close_ctrl_a items out =
     (if trim out = [] then []
      else filter (\<lambda>i. in_range i (length items)) (map index_of_line (js_split (trim out) [10])))"

definition selectWithFzf_ctrl_a :: "bool \<Rightarrow> jsstring list \<Rightarrow> jsstring \<Rightarrow> jsnum list option" where
  "selectWithFzf_ctrl_a fzf items out =
     (if \<not> fzf then None
      else if length items = 0 then Some []
      else Some (fzf_close_ctrl_a items out))"

section \<open>\<open>runCLI\<close>: the session and the dispatch loop\<close>

text \<open>
  \<open>runCLI\<close> of \<open>src/index.js\<close> (lines 134 to 239) with the functions it calls;
  \<open>main\<close> of \<open>src/unnamed/part_001\<close> has the same body.

  An awaited call either throws (its promise rejects) or gives a value.
\<close>

datatype 'a result = Thrown | Value 'a

definition selectWithEnquirerSingle :: "jsstring list \<Rightarrow> jsstring reply \<Rightarrow> int result" where
  "selectWithEnquirerSingle items r =
     (case r of Aborted \<Rightarrow> Thrown | Submitted ans \<Rightarrow> Value (indexOf items ans))"

text \<open>
  The multi-select of \<open>src/index.js\<close> (the variant with the select-all entries): the
  prompt's \<open>result\<close> hook drops the names starting with two underscores, and the picked
  names are resolved with \<open>indexOf\<close>.
\<close>

definition selectWithEnquirerMulti_index :: "jsstring list \<Rightarrow> jsstring list reply \<Rightarrow> int list result" where
  "selectWithEnquirerMulti_index items r =
     (case r of
        Aborted \<Rightarrow> Thrown
      | Submitted names \<Rightarrow>
          (let picked = filter (\<lambda>n. \<not> startsWith n (str ''__'')) names
           in Value (map (\<lambda>v. indexOf items v) picked)))"

record workflow =
  wf_name :: jsstring
  wf_path :: jsstring
  wf_state :: jsstring

definition SEP :: jsstring where
  "SEP = [32, 8212, 32]"

definition display :: "workflow \<Rightarrow> jsstring" where
  "display w = wf_name w @ SEP @ wf_path w"

text \<open>\<open>xs[i]\<close> for a computed index: \<open>undefined\<close> unless \<open>i\<close> is a position of \<open>xs\<close>.\<close>

definition index :: "'a list \<Rightarrow> jsnum option \<Rightarrow> 'a option" where
  "index xs i =
     (case i of
        None \<Rightarrow> None
      | Some NaN \<Rightarrow> None
      | Some (Num n) \<Rightarrow> if 0 \<le> n \<and> n < int (length xs) then Some (xs ! nat n) else None)"

text \<open>
  What the session prints and runs, in order. \<open>GhWorkflowRun path ref ok\<close> is the call
  \<open>execFileSync("gh", ["workflow", "run", path, "--ref", ref])\<close>, with \<open>ok\<close> false when
  it threw.
\<close>

datatype event =
    GitNotFound | GhNotFound | NoRefsFound
  | SelectedRef "jsstring option"
  | InvalidWorkflowJson | NoActiveWorkflows | NothingSelected
  | WillDispatch "jsstring option list"
  | Cancelled
  | Dispatching "jsstring option" "jsstring option"
  | GhWorkflowRun "jsstring option" "jsstring option" bool
  | Failed
  | DoneMsg

datatype status = Exited nat | Returned | Rejected

text \<open>
  Step 5. \<open>exec\<close> stands for the external CI tool: given the state of the world, the
  path and the ref, it succeeds or fails and leaves a new state. A chosen entry that is
  \<open>undefined\<close> makes \<open>w.split\<close> throw outside the \<open>try\<close>, which ends the session.
\<close>

definition dispatch_path :: "jsstring \<Rightarrow> jsstring option" where
  "dispatch_path w = nth_opt (js_split w SEP) 1"

fun dispatch :: "('w \<Rightarrow> jsstring option \<Rightarrow> jsstring option \<Rightarrow> bool \<times> 'w) \<Rightarrow> jsstring option \<Rightarrow>
    jsstring option list \<Rightarrow> 'w \<Rightarrow> event list \<times> status \<times> 'w" where
  "dispatch exec selectedRef [] world = ([DoneMsg], Returned, world)"
| "dispatch exec selectedRef (None # chosen) world = ([], Rejected, world)"
| "dispatch exec selectedRef (Some w # chosen) world =
     (let path = dispatch_path w;
          (ok, world') = exec world path selectedRef;
          (evs, st, world'') = dispatch exec selectedRef chosen world'
      in (Dispatching path selectedRef # GhWorkflowRun path selectedRef ok #
            (if ok then [] else [Failed]) @ evs, st, world''))"

text \<open>
  The operator, the tools and the repository as the session meets them. \<open>git_refs\<close> is
  the output of the ref listing (\<open>None\<close> when the command fails); \<open>gh_workflows\<close> is
  \<open>JSON.parse\<close> of the workflow listing, \<open>None\<close> when it throws, and otherwise taken to
  be an array of records with the three text fields.
\<close>

record 'w env =
  has_git :: bool
  has_gh :: bool
  has_fzf :: bool
  git_refs :: "jsstring option"
  fzf_ref_out :: jsstring
  enq_single :: "jsstring reply"
  gh_workflows :: "workflow list option"
  fzf_wf_out :: jsstring
  enq_multi :: "jsstring list reply"
  confirm_reply :: "bool reply"
  gh_run :: "'w \<Rightarrow> jsstring option \<Rightarrow> jsstring option \<Rightarrow> bool \<times> 'w"
  world :: 'w

definition run :: "jsstring option \<Rightarrow> jsstring" where
  "run r = (case r of None \<Rightarrow> [] | Some text \<Rightarrow> text)"

definition prepend :: "event list \<Rightarrow> event list \<times> status \<times> 'w \<Rightarrow> event list \<times> status \<times> 'w" where
  "prepend evs r = (case r of (evs', st, w) \<Rightarrow> (evs @ evs', st, w))"

text \<open>Step 2: the ref index, \<open>undefined\<close> (\<open>None\<close>) when the fuzzy finder gave no line.\<close>

definition select_ref :: "'w env \<Rightarrow> jsstring list \<Rightarrow> jsnum option result" where
  "select_ref e refs =
     (case selectWithFzf (has_fzf e) refs (fzf_ref_out e) of
        None \<Rightarrow>
          (case selectWithEnquirerSingle refs (enq_single e) of
             Thrown \<Rightarrow> Thrown
           | Value i \<Rightarrow> Value (Some (Num i)))
      | Some refIdxs \<Rightarrow> Value (nth_opt refIdxs 0))"

text \<open>Step 4: the workflow indices.\<close>

definition select_workflows :: "'w env \<Rightarrow> jsstring list \<Rightarrow> jsnum list result" where
  "select_workflows e workflows =
     (case selectWithFzf (has_fzf e) workflows (fzf_wf_out e) of
        None \<Rightarrow>
          (case selectWithEnquirerMulti_index workflows (enq_multi e) of
             Thrown \<Rightarrow> Thrown
           | Value idxs \<Rightarrow> Value (map Num idxs))
      | Some wIdxs \<Rightarrow> Value wIdxs)"

text \<open>Steps 4 and 5, from the workflow list on.\<close>

definition choose_and_dispatch :: "'w env \<Rightarrow> jsstring option \<Rightarrow> jsstring list \<Rightarrow> event list \<times> status \<times> 'w" where
  "choose_and_dispatch e selectedRef workflows =
     (case select_workflows e workflows of
        Thrown \<Rightarrow> ([], Rejected, world e)
      | Value wIdxs \<Rightarrow>
          if length wIdxs = 0 then ([NothingSelected], Returned, world e)
          else
            (let chosen = map (\<lambda>i. index workflows (Some i)) wIdxs in
             prepend [WillDispatch chosen]
               (case confirm_reply e of
                  Aborted \<Rightarrow> ([], Rejected, world e)
                | Submitted ok \<Rightarrow>
                    if \<not> ok then ([Cancelled], Returned, world e)
                    else dispatch (gh_run e) selectedRef chosen (world e))))"

text \<open>Step 3, from the selected ref on.\<close>

definition fetch_and_dispatch :: "'w env \<Rightarrow> jsstring option \<Rightarrow> event list \<times> status \<times> 'w" where
  "fetch_and_dispatch e selectedRef =
     (case gh_workflows e of
        None \<Rightarrow> ([InvalidWorkflowJson], Returned, world e)
      | Some data \<Rightarrow>
          (let workflows = map display (filter (\<lambda>w. wf_state w = str ''active'') data) in
           if length workflows = 0 then ([NoActiveWorkflows], Returned, world e)
           else choose_and_dispatch e selectedRef workflows))"

definition runCLI :: "'w env \<Rightarrow> event list \<times> status \<times> 'w" where
  "runCLI e =
     (if \<not> has_git e then ([GitNotFound], Exited 1, world e)
      else if \<not> has_gh e then ([GhNotFound], Exited 1, world e)
      else
        (let refs = filter (\<lambda>s. s \<noteq> []) (map trim (js_split (run (git_refs e)) [10])) in
         if length refs = 0 then ([NoRefsFound], Returned, world e)
         else
           (case select_ref e refs of
              Thrown \<Rightarrow> ([], Rejected, world e)
            | Value refIdx \<Rightarrow>
                (let selectedRef = index refs refIdx in
                 prepend [SelectedRef selectedRef] (fetch_and_dispatch e selectedRef)))))"

text \<open>
  What the external tool answers, call after call, when it is asked once for each
  chosen workflow in order. The trace of \<open>dispatch\<close> is compared with it.
\<close>

fun exec_outcomes :: "('w \<Rightarrow> jsstring option \<Rightarrow> jsstring option \<Rightarrow> bool \<times> 'w) \<Rightarrow> jsstring option \<Rightarrow>
    jsstring list \<Rightarrow> 'w \<Rightarrow> bool list" where
  "exec_outcomes exec selectedRef [] state = []"
| "exec_outcomes exec selectedRef (w # ws) state =
     (let (ok, state') = exec state (dispatch_path w) selectedRef
      in ok # exec_outcomes exec selectedRef ws state')"

text \<open>The lines one chosen workflow contributes to the trace, given the outcome of its call.\<close>

definition item_trace :: "jsstring option \<Rightarrow> jsstring \<Rightarrow> bool \<Rightarrow> event list" where
  "item_trace selectedRef w ok =
     Dispatching (dispatch_path w) selectedRef # GhWorkflowRun (dispatch_path w) selectedRef ok #
     (if ok then [] else [Failed])"

section \<open>Example data\<close>

definition deploy_item :: jsstring where
  "deploy_item = str ''Deploy '' @ [8212] @ str '' .github/workflows/deploy.yml''"

definition test_item :: jsstring where
  "test_item = str ''Test '' @ [8212] @ str '' .github/workflows/test.yml''"

definition ex_rounds :: "round list" where
  "ex_rounds = [(Submitted (str ''dep''), Submitted [TOGGLE]),
                (Submitted (str ''zzz''), Aborted),
                (Submitted (str ''test''), Submitted [test_item]),
                (Submitted (str '':done''), Aborted)]"

definition ex_hidden_rounds :: "round list" where
  "ex_hidden_rounds = [(Submitted (str ''test''), Submitted [test_item]),
                       (Submitted (str ''TEST''), Submitted [TOGGLE])]"

text \<open>
  A session with the fuzzy finder installed: two refs, the two example workflows, both
  picked, the confirmation answered yes. The external tool's state counts its calls,
  and the first call fails.
\<close>

definition ex_workflows :: "workflow list" where
  "ex_workflows =
     [\<lparr>wf_name = str ''Deploy'', wf_path = str ''.github/workflows/deploy.yml'', wf_state = str ''active''\<rparr>,
      \<lparr>wf_name = str ''Old'', wf_path = str ''.github/workflows/old.yml'', wf_state = str ''disabled_manually''\<rparr>,
      \<lparr>wf_name = str ''Test'', wf_path = str ''.github/workflows/test.yml'', wf_state = str ''active''\<rparr>]"

definition first_call_fails :: "nat \<Rightarrow> jsstring option \<Rightarrow> jsstring option \<Rightarrow> bool \<times> nat" where
  "first_call_fails n path ref = (n \<noteq> 0, Suc n)"

definition ex_env :: "nat env" where
  "ex_env = \<lparr> has_git = True, has_gh = True, has_fzf = True,
     git_refs = Some (str ''main'' @ [10] @ str ''v1.0'' @ [10]),
     fzf_ref_out = str ''1'' @ [9] @ str ''main'' @ [10],
     enq_single = Aborted,
     gh_workflows = Some ex_workflows,
     fzf_wf_out = str ''1'' @ [9] @ deploy_item @ [10] @ str ''2'' @ [9] @ test_item @ [10],
     enq_multi = Aborted,
     confirm_reply = Submitted True,
     gh_run = first_call_fails,
     world = 0 \<rparr>"

text \<open>The same session with the ref selection interrupted: the fuzzy finder prints nothing.\<close>

definition ex_env_ref_aborted :: "nat env" where
  "ex_env_ref_aborted = ex_env\<lparr>fzf_ref_out := []\<rparr>"

text \<open>The same session without the fuzzy finder, the built-in ref prompt interrupted.\<close>

definition ex_env_prompt_aborted :: "nat env" where
  "ex_env_prompt_aborted = ex_env\<lparr>has_fzf := False, enq_single := Aborted\<rparr>"

text \<open>A workflow whose name contains the display separator.\<close>

definition ex_build_prod :: workflow where
  "ex_build_prod =
     \<lparr>wf_name = str ''Build '' @ [8212] @ str '' prod'',
      wf_path = str ''.github/workflows/build.yml'', wf_state = str ''active''\<rparr>"

definition ex_env_build_prod :: "nat env" where
  "ex_env_build_prod = ex_env\<lparr>gh_workflows := Some [ex_build_prod],
     fzf_wf_out := str ''1'' @ [9] @ display ex_build_prod @ [10]\<rparr>"

text \<open>
  Output of the fuzzy finder for the items \<open>a\<close>, \<open>b\<close>: the second item, a line
  without a number, the numbers 0 and 7, and the first item.
\<close>

definition ex_fzf_out :: jsstring where
  "ex_fzf_out = str ''2'' @ [9] @ str ''b'' @ [10] @ str ''foo'' @ [10] @ str ''0'' @ [9] @ str ''z''
     @ [10] @ str ''7'' @ [9] @ str ''q'' @ [10] @ str ''1'' @ [9] @ str ''a'' @ [10]"

section \<open>Facts about the building blocks\<close>

lemma set_set_add: "set (set_add s v) = insert v (set s)"
  by (auto simp: set_add_def)

lemma set_set_delete: "set (set_delete s v) = set s - {v}"
  by (auto simp: set_delete_def)

lemma set_delete_visible: "set (delete_visible vis s) = set s - fst ` set vis"
  unfolding delete_visible_def
  by (induction vis arbitrary: s) (auto simp: set_set_delete)

lemma set_add_visible: "set (add_visible vis s) = set s \<union> fst ` set vis"
  unfolding add_visible_def
  by (induction vis arbitrary: s) (auto simp: set_set_add)

lemma set_add_values: "set (add_values vs s) = set s \<union> set vs"
  unfolding add_values_def
  by (induction vs arbitrary: s) (auto simp: set_set_add)

lemma startsWith_iff: "startsWith s p \<longleftrightarrow> (\<exists>ss. s = p @ ss)"
  unfolding startsWith_def
  by (metis append_eq_conv_conj append_take_drop_id)

lemma js_includes_iff: "js_includes s q \<longleftrightarrow> (\<exists>ps ss. s = ps @ q @ ss)"
proof (induction s)
  case Nil
  then show ?case by auto
next
  case (Cons c cs)
  show ?case
  proof
    assume "js_includes (c # cs) q"
    then consider "startsWith (c # cs) q" | "js_includes cs q" by auto
    then show "\<exists>ps ss. c # cs = ps @ q @ ss"
    proof cases
      case 1
      then obtain ss where "c # cs = q @ ss" by (auto simp: startsWith_iff)
      then have "c # cs = [] @ q @ ss" by simp
      then show ?thesis by blast
    next
      case 2
      then obtain ps ss where "cs = ps @ q @ ss" using Cons.IH by auto
      then have "c # cs = (c # ps) @ q @ ss" by simp
      then show ?thesis by blast
    qed
  next
    assume "\<exists>ps ss. c # cs = ps @ q @ ss"
    then obtain ps ss where e: "c # cs = ps @ q @ ss" by auto
    show "js_includes (c # cs) q"
    proof (cases ps)
      case Nil
      then have "startsWith (c # cs) q" using e unfolding startsWith_iff by auto
      then show ?thesis by simp
    next
      case (Cons p ps')
      then have "cs = ps' @ q @ ss" using e by simp
      then show ?thesis using Cons.IH by auto
    qed
  qed
qed

lemma indexOf_nonneg_iff: "indexOf xs v \<ge> 0 \<longleftrightarrow> v \<in> set xs"
  by (induction xs) (auto simp: Let_def)

lemma indexOf_first:
  "v \<in> set xs \<Longrightarrow> nat (indexOf xs v) < length xs \<and> xs ! nat (indexOf xs v) = v
     \<and> (\<forall>j < nat (indexOf xs v). xs ! j \<noteq> v)"
proof (induction xs)
  case Nil
  then show ?case by simp
next
  case (Cons x xs)
  show ?case
  proof (cases "x = v")
    case True
    then show ?thesis by simp
  next
    case False
    then have m: "v \<in> set xs" using Cons.prems by simp
    then have nn: "indexOf xs v \<ge> 0" by (simp add: indexOf_nonneg_iff)
    have e: "nat (indexOf (x # xs) v) = Suc (nat (indexOf xs v))"
      using False nn by (simp add: Let_def nat_add_distrib)
    show ?thesis
      unfolding e using Cons.IH[OF m] False
      by (auto simp: less_Suc_eq_0_disj)
  qed
qed


lemma fst_zip_upt: "fst ` set (zip xs [0 ..< length xs]) = set xs"
proof -
  have "fst ` set (zip xs [0 ..< length xs]) = set (map fst (zip xs [0 ..< length xs]))"
    by (simp only: set_map)
  also have "map fst (zip xs [0 ..< length xs]) = xs" by simp
  finally show ?thesis .
qed

lemma visible_items_eq:
  "visible_items lower items q =
     filter (\<lambda>(it, idx). \<exists>ps ss. lower it = ps @ lower q @ ss) (zip items [0 ..< length items])"
proof (cases "lower q = []")
  case True
  have "\<exists>ps ss. s = ps @ ss" for s :: jsstring
    by (rule exI[of _ "[]"]) simp
  then show ?thesis using True by (simp add: visible_items_def)
next
  case False
  then show ?thesis by (simp add: visible_items_def js_includes_iff)
qed

lemma visible_items_subset: "fst ` set (visible_items lower items q) \<subseteq> set items"
proof -
  have "set (visible_items lower items q) \<subseteq> set (zip items [0 ..< length items])"
    unfolding visible_items_eq by auto
  then have "fst ` set (visible_items lower items q) \<subseteq> fst ` set (zip items [0 ..< length items])"
    by blast
  then show ?thesis by (simp only: fst_zip_upt)
qed

lemma fst_set_filter_fst:
  "fst ` set (filter (\<lambda>(a, b). Q a) zs) = {a \<in> fst ` set zs. Q a}"
  by (induction zs) auto

lemma visible_items_member:
  "x \<in> fst ` set (visible_items lower items q) \<longleftrightarrow>
     x \<in> set items \<and> js_includes (lower x) (lower q)"
proof -
  define Q where "Q = (\<lambda>it. js_includes (lower it) (lower q))"
  have "visible_items lower items q = filter (\<lambda>(a, b). Q a) (zip items [0 ..< length items])"
    unfolding visible_items_eq Q_def js_includes_iff ..
  then have "fst ` set (visible_items lower items q) = {a \<in> set items. Q a}"
    by (simp only: fst_set_filter_fst fst_zip_upt)
  then show ?thesis by (simp add: Q_def)
qed

lemma choice_values_choices: "choice_values (choices visible sel) = TOGGLE # map fst visible"
proof -
  have "choice_values (map (\<lambda>(it, idx). Choice it it (set_has sel it)) vis) = map fst vis" for vis
    by (induction vis) auto
  then show ?thesis by (simp add: choices_def)
qed

lemma submittable_rest:
  assumes "submittable (choices visible sel) result"
  shows "set (filter (\<lambda>v. v \<noteq> TOGGLE) result) \<subseteq> fst ` set visible"
  using assms by (auto simp: submittable_def choice_values_choices list_all_iff)

lemma update_selection_override:
  assumes "\<not> (TOGGLE \<in> set result \<and> filter (\<lambda>v. v \<noteq> TOGGLE) result = [])"
  shows "update_selection sel visible result =
           add_values (filter (\<lambda>v. v \<noteq> TOGGLE) result) (delete_visible visible sel)"
proof (cases "TOGGLE \<in> set result")
  case True
  then show ?thesis using assms by (simp add: update_selection_def Let_def)
next
  case False
  then have "filter (\<lambda>v. v \<noteq> TOGGLE) result = result"
    by (induction result) auto
  then show ?thesis using False by (simp add: update_selection_def)
qed

lemma update_selection_toggle_only:
  "update_selection sel visible [TOGGLE] =
     (if list_all (\<lambda>(it, idx). set_has sel it) visible
      then delete_visible visible sel else add_visible visible sel)"
  by (simp add: update_selection_def)

lemma all_selected_iff:
  "list_all (\<lambda>(it, idx). set_has sel it) visible \<longleftrightarrow> fst ` set visible \<subseteq> set sel"
  by (auto simp: list_all_iff set_has_def)

lemma set_update_toggle_only:
  "set (update_selection sel visible [TOGGLE]) =
     (if fst ` set visible \<subseteq> set sel then set sel - fst ` set visible
      else set sel \<union> fst ` set visible)"
  by (simp add: update_selection_toggle_only all_selected_iff set_delete_visible set_add_visible)

lemma set_update_selection_subset:
  assumes "submittable (choices visible sel) result"
  shows "set (update_selection sel visible result) \<subseteq> set sel \<union> fst ` set visible"
proof (cases "TOGGLE \<in> set result \<and> filter (\<lambda>v. v \<noteq> TOGGLE) result = []")
  case True
  then have "update_selection sel visible result = update_selection sel visible [TOGGLE]"
    by (simp add: update_selection_def)
  then show ?thesis by (auto simp: set_update_toggle_only split: if_splits)
next
  case False
  show ?thesis
    unfolding update_selection_override[OF False] set_add_values set_delete_visible
    using submittable_rest[OF assms] by auto
qed

lemma update_selection_frame:
  assumes "submittable (choices visible sel) result" and "x \<notin> fst ` set visible"
  shows "(x \<in> set (update_selection sel visible result)) = (x \<in> set sel)"
proof (cases "TOGGLE \<in> set result \<and> filter (\<lambda>v. v \<noteq> TOGGLE) result = []")
  case True
  then have "update_selection sel visible result = update_selection sel visible [TOGGLE]"
    by (simp add: update_selection_def)
  then show ?thesis using assms(2) by (auto simp: set_update_toggle_only split: if_splits)
next
  case False
  show ?thesis
    unfolding update_selection_override[OF False] set_add_values set_delete_visible
    using submittable_rest[OF assms(1)] assms(2) by auto
qed

lemma run_rounds_append:
  "run_rounds lower items s (rs @ rs') =
     (case run_rounds lower items s rs of
        Return idxs \<Rightarrow> Return idxs
      | Continue s' \<Rightarrow> run_rounds lower items s' rs')"
  by (induction rs arbitrary: s) (auto split: outcome.splits)

lemma iteration_done:
  "trim f = DONE \<Longrightarrow> iteration lower items s (Submitted f, p) = Return (done_result items s)"
  by (simp add: iteration_def filter_step_def)

lemma set_done_result:
  "set (done_result items S) =
     {int i | i. i < length items \<and> items ! i \<in> set S \<and> (\<forall>j<i. items ! j \<noteq> items ! i)}"
  (is "?L = ?R")
proof
  show "?L \<subseteq> ?R"
  proof
    fix k assume "k \<in> ?L"
    then obtain v where v: "v \<in> set S" "k = indexOf items v" "0 \<le> k"
      by (auto simp: done_result_def)
    then have m: "v \<in> set items" by (simp add: indexOf_nonneg_iff)
    from indexOf_first[OF m] v show "k \<in> ?R"
      by (intro CollectI exI[of _ "nat k"]) auto
  qed
next
  show "?R \<subseteq> ?L"
  proof
    fix k assume "k \<in> ?R"
    then obtain i where i: "k = int i" "i < length items" "items ! i \<in> set S"
      "\<forall>j<i. items ! j \<noteq> items ! i" by auto
    let ?v = "items ! i"
    have m: "?v \<in> set items" using i(2) by simp
    from indexOf_first[OF m] have a: "nat (indexOf items ?v) < length items"
      "items ! nat (indexOf items ?v) = ?v" "\<forall>j < nat (indexOf items ?v). items ! j \<noteq> ?v"
      by auto
    have "\<not> nat (indexOf items ?v) < i" using a(2) i(4) by auto
    moreover have "\<not> i < nat (indexOf items ?v)" using a(3) by auto
    ultimately have "nat (indexOf items ?v) = i" by simp
    moreover have "0 \<le> indexOf items ?v" using m by (simp add: indexOf_nonneg_iff)
    ultimately have "indexOf items ?v = k" using i(1) by simp
    then show "k \<in> ?L" using i(3) \<open>0 \<le> indexOf items ?v\<close>
      by (force simp: done_result_def)
  qed
qed



lemma filter_step_cases:
  assumes "filter_step lower items s (Submitted raw) = FPick visible"
  shows "visible = visible_items lower items (trim raw) \<and> trim raw \<noteq> DONE \<and> trim raw \<noteq> RESET"
  using assms by (auto simp: filter_step_def Let_def split: if_splits)

lemma iteration_Continue_cases:
  assumes "iteration lower items s r = Continue s'"
  shows "(filter_step lower items s (fst r) = FContinue s')
       \<or> (\<exists>visible result. filter_step lower items s (fst r) = FPick visible
             \<and> snd r = Submitted result \<and> s' = update_selection s visible result)"
  using assms
  by (auto simp: iteration_def split: filter_outcome.splits reply.splits)

lemma filter_step_FContinue:
  assumes "filter_step lower items s f = FContinue s'"
  shows "s' = s \<or> (s' = [] \<and> (\<exists>raw. f = Submitted raw \<and> trim raw = RESET))"
  using assms by (auto simp: filter_step_def Let_def split: reply.splits if_splits)

lemma iteration_invariant:
  assumes "set s \<subseteq> set items" and "round_ok lower items s r"
      and "iteration lower items s r = Continue s'"
  shows "set s' \<subseteq> set items"
  using iteration_Continue_cases[OF assms(3)]
proof (elim disjE exE conjE)
  assume "filter_step lower items s (fst r) = FContinue s'"
  from filter_step_FContinue[OF this] show ?thesis using assms(1) by auto
next
  fix visible result
  assume f: "filter_step lower items s (fst r) = FPick visible"
    and p: "snd r = Submitted result" and u: "s' = update_selection s visible result"
  have ok: "submittable (choices visible s) result"
    using assms(2) f p by (simp add: round_ok_def)
  obtain raw where raw: "fst r = Submitted raw"
    using f by (cases "fst r") (auto simp: filter_step_def)
  have v: "visible = visible_items lower items (trim raw)"
    using filter_step_cases f raw by metis
  have "fst ` set visible \<subseteq> set items"
    unfolding v by (rule visible_items_subset)
  then show ?thesis
    using set_update_selection_subset[OF ok] assms(1) u by blast
qed

lemma run_rounds_invariant:
  assumes "rounds_ok lower items s rs" and "set s \<subseteq> set items"
      and "run_rounds lower items s rs = Continue S"
  shows "set S \<subseteq> set items"
  using assms
proof (induction rs arbitrary: s)
  case Nil
  then show ?case by simp
next
  case (Cons r rs)
  from Cons.prems(3) obtain s' where it: "iteration lower items s r = Continue s'"
    and rest: "run_rounds lower items s' rs = Continue S"
    by (auto split: outcome.splits)
  have ok: "round_ok lower items s r" and oks: "rounds_ok lower items s' rs"
    using Cons.prems(1) it by auto
  have "set s' \<subseteq> set items"
    by (rule iteration_invariant[OF Cons.prems(2) ok it])
  then show ?case using Cons.IH[OF oks _ rest] by simp
qed

lemma rounds_ok_take:
  "rounds_ok lower items s rs \<Longrightarrow> rounds_ok lower items s (take n rs)"
proof (induction rs arbitrary: s n)
  case Nil
  then show ?case by simp
next
  case (Cons r rs)
  show ?case
  proof (cases n)
    case 0
    then show ?thesis by simp
  next
    case (Suc k)
    then show ?thesis using Cons.prems Cons.IH
      by (auto split: outcome.splits)
  qed
qed

lemma done_result_members:
  assumes "set S \<subseteq> set items"
  shows "done_result items S = map (indexOf items) S"
proof -
  have "\<forall>v \<in> set S. 0 \<le> indexOf items v"
    using assms by (auto simp: indexOf_nonneg_iff)
  then have "filter (\<lambda>i. i \<ge> 0) (map (\<lambda>v. indexOf items v) S) = map (\<lambda>v. indexOf items v) S"
    by (induction S) auto
  then show ?thesis by (simp add: done_result_def)
qed

lemma iteration_frame:
  assumes ok: "round_ok lower items s r"
      and it: "iteration lower items s r = Continue s'"
      and raw: "fst r = Submitted raw" and nr: "trim raw \<noteq> RESET"
      and hid: "\<not> js_includes (lower x) (lower (trim raw))"
  shows "(x \<in> set s') = (x \<in> set s)"
  using iteration_Continue_cases[OF it]
proof (elim disjE exE conjE)
  assume "filter_step lower items s (fst r) = FContinue s'"
  from filter_step_FContinue[OF this] have "s' = s" using raw nr by auto
  then show ?thesis by simp
next
  fix visible result
  assume f: "filter_step lower items s (fst r) = FPick visible"
    and p: "snd r = Submitted result" and u: "s' = update_selection s visible result"
  have sub: "submittable (choices visible s) result"
    using ok f p by (simp add: round_ok_def)
  have v: "visible = visible_items lower items (trim raw)"
    using filter_step_cases f raw by metis
  have "x \<notin> fst ` set visible"
    unfolding v visible_items_member using hid by simp
  then show ?thesis
    unfolding u by (rule update_selection_frame[OF sub])
qed

lemma run_rounds_frame:
  assumes "rounds_ok lower items s rs"
      and "run_rounds lower items s rs = Continue s'"
      and "list_all (\<lambda>r. case fst r of Aborted \<Rightarrow> False
             | Submitted raw \<Rightarrow> trim raw \<noteq> RESET \<and> \<not> js_includes (lower x) (lower (trim raw))) rs"
  shows "(x \<in> set s') = (x \<in> set s)"
  using assms
proof (induction rs arbitrary: s)
  case Nil
  then show ?case by simp
next
  case (Cons r rs)
  from Cons.prems(2) obtain s1 where it: "iteration lower items s r = Continue s1"
    and rest: "run_rounds lower items s1 rs = Continue s'"
    by (auto split: outcome.splits)
  have ok: "round_ok lower items s r" and oks: "rounds_ok lower items s1 rs"
    using Cons.prems(1) it by auto
  from Cons.prems(3) obtain raw where raw: "fst r = Submitted raw" "trim raw \<noteq> RESET"
      "\<not> js_includes (lower x) (lower (trim raw))"
    by (cases "fst r") auto
  have 1: "(x \<in> set s1) = (x \<in> set s)"
    by (rule iteration_frame[OF ok it raw])
  have 2: "(x \<in> set s') = (x \<in> set s1)"
    using Cons.IH[OF oks rest] Cons.prems(3) by simp
  show ?case using 1 2 by simp
qed

lemma choices_prechecked:
  assumes "x \<in> fst ` set visible"
  shows "Choice x x (x \<in> set sel) \<in> set (choices visible sel)"
proof -
  from assms obtain i where "(x, i) \<in> set visible" by auto
  then have "(\<lambda>(it, idx). Choice it it (set_has sel it)) (x, i)
       \<in> set (map (\<lambda>(it, idx). Choice it it (set_has sel it)) visible)"
    by (simp only: set_map) (rule imageI)
  then show ?thesis by (simp add: choices_def set_has_def)
qed

lemma choices_entries:
  "choices visible sel =
     Choice TOGGLE TOGGLE False # Separator #
     map (\<lambda>(it, idx). Choice it it (it \<in> set sel)) visible"
  by (simp add: choices_def set_has_def)

lemma choices_item_entry:
  assumes "c \<in> set (drop 2 (choices visible sel))" and "ch_value c = x"
  shows "c = Choice x x (x \<in> set sel)"
proof -
  have "drop 2 (choices visible sel) = map (\<lambda>(it, idx). Choice it it (it \<in> set sel)) visible"
    by (simp add: choices_entries)
  with assms(1) obtain it idx where "(it, idx) \<in> set visible" "c = Choice it it (it \<in> set sel)"
    by auto
  then show ?thesis using assms(2) by simp
qed

lemma in_range_Num:
  "in_range x len \<Longrightarrow> \<exists>i. x = Num i \<and> 0 \<le> i \<and> i < int len"
  by (cases x) (auto simp: in_range_def)

lemma dispatch_trace:
  "dispatch exec ref (map Some ws) st =
     (concat (map2 (item_trace ref) ws (exec_outcomes exec ref ws st)) @ [DoneMsg], Returned,
      snd (snd (dispatch exec ref (map Some ws) st)))"
proof (induction ws arbitrary: st)
  case Nil
  show ?case by simp
next
  case (Cons w ws)
  obtain ok st' where e: "exec st (dispatch_path w) ref = (ok, st')"
    by (cases "exec st (dispatch_path w) ref")
  obtain evs s st'' where d: "dispatch exec ref (map Some ws) st' = (evs, s, st'')"
    by (cases "dispatch exec ref (map Some ws) st'")
  from Cons.IH[of st'] d
  have evs: "evs = concat (map2 (item_trace ref) ws (exec_outcomes exec ref ws st')) @ [DoneMsg]"
    and s: "s = Returned"
    by simp_all
  show ?case
    by (simp add: e d evs s item_trace_def Let_def)
qed

text \<open>
  An interrupt at either prompt of the loop makes \<open>selectWithEnquirerMulti\<close> return
  the empty list.
\<close>

lemma iteration_filter_aborted: "iteration lower items s (Aborted, p) = Return []"
  by (simp add: iteration_def filter_step_def)

lemma iteration_pick_aborted:
  "filter_step lower items s f = FPick visible \<Longrightarrow> iteration lower items s (f, Aborted) = Return []"
  by (simp add: iteration_def)

text \<open>
  The path derived from a display string is the record's path when the name holds no
  em dash and the path does not contain the separator.
\<close>

lemma split_from_no_separator:
  "\<not> js_includes rest sep \<Longrightarrow> split_from sep cur rest = [cur @ rest]"
  by (induction rest arbitrary: cur) auto

lemma startsWith_SEP_second:
  "startsWith (c # cs) SEP \<Longrightarrow> cs \<noteq> [] \<and> hd cs = 8212"
  by (cases cs) (auto simp: startsWith_def SEP_def)

lemma split_from_first_separator:
  "8212 \<notin> set pre \<Longrightarrow>
     split_from SEP cur (pre @ SEP @ rest) = (cur @ pre) # split_from SEP [] rest"
proof (induction pre arbitrary: cur)
  case Nil
  have "startsWith (SEP @ rest) SEP" by (simp add: startsWith_def)
  then show ?case by (simp add: SEP_def startsWith_def)
next
  case (Cons c pre)
  have "\<not> startsWith (c # pre @ SEP @ rest) SEP"
  proof
    assume "startsWith (c # pre @ SEP @ rest) SEP"
    from startsWith_SEP_second[OF this] have "hd (pre @ SEP @ rest) = 8212" by simp
    then show False using Cons.prems by (cases pre) (auto simp: SEP_def)
  qed
  then show ?case using Cons by simp
qed

lemma dispatch_path_display:
  assumes "8212 \<notin> set (wf_name w)" and "\<not> js_includes (wf_path w) SEP"
  shows "dispatch_path (display w) = Some (wf_path w)"
proof -
  have "js_split (display w) SEP = [wf_name w, wf_path w]"
    using split_from_first_separator[OF assms(1), of "[]" "wf_path w"]
      split_from_no_separator[OF assms(2), of "[]"]
    by (simp add: js_split_def display_def SEP_def)
  then show ?thesis by (simp add: dispatch_path_def)
qed

text \<open>The definitions unfolded to run the model on concrete inputs.\<close>

lemmas run_simps = str_def trim_def is_space_def startsWith_def ascii_lower_def
  set_add_def set_delete_def set_has_def TOGGLE_def DONE_def RESET_def visible_items_def
  choices_def submittable_def delete_visible_def add_visible_def add_values_def
  update_selection_def done_result_def filter_step_def iteration_def
  selectWithEnquirerMulti_def round_ok_def Let_def deploy_item_def test_item_def

lemmas cli_simps = run_simps js_split_def is_digit_def fzf_close_select_all_def
  selectWithFzf_select_all_def index_of_line_def fzf_close_ctrl_a_def selectWithFzf_ctrl_a_def
  digits_value_def parseInt_def num_minus_1_def in_range_def first_field_def fzf_close_def
  selectWithFzf_def selectWithEnquirerSingle_def selectWithEnquirerMulti_index_def
  SEP_def display_def index_def dispatch_path_def run_def prepend_def select_ref_def
  select_workflows_def choose_and_dispatch_def fetch_and_dispatch_def runCLI_def
  ex_workflows_def first_call_fails_def ex_env_def ex_env_ref_aborted_def
  ex_env_prompt_aborted_def ex_build_prod_def ex_env_build_prod_def item_trace_def

section \<open>The claims about the filter/pick loop\<close>

text \<open>
  C1, as amended. When the operator enters \<open>:done\<close> after rounds that left the selection
  state \<open>S\<close>, the function returns \<open>done_result items S\<close>, and the indices in it are
  exactly the first positions of the display strings that are members of \<open>S\<close>. For an
  item list without repeated display strings these are exactly the indices whose display
  string is a member of \<open>S\<close>.
\<close>

theorem done_returns_first_indices_of_members:
  assumes "run_rounds lower items [] rs = Continue S" and "trim f = DONE"
  shows "selectWithEnquirerMulti lower items (rs @ [(Submitted f, p)]) = Some (done_result items S)
    \<and> set (done_result items S) =
        {int i | i. i < length items \<and> items ! i \<in> set S \<and> (\<forall>j<i. items ! j \<noteq> items ! i)}
    \<and> (distinct items \<longrightarrow>
        set (done_result items S) = {int i | i. i < length items \<and> items ! i \<in> set S})"
proof (intro conjI impI)
  show "selectWithEnquirerMulti lower items (rs @ [(Submitted f, p)]) = Some (done_result items S)"
    by (simp add: selectWithEnquirerMulti_def run_rounds_append assms(1) iteration_done[OF assms(2)])
next
  show "set (done_result items S) =
        {int i | i. i < length items \<and> items ! i \<in> set S \<and> (\<forall>j<i. items ! j \<noteq> items ! i)}"
    by (rule set_done_result)
next
  assume d: "distinct items"
  have "(\<forall>j<i. items ! j \<noteq> items ! i)" if "i < length items" for i
    using d that by (auto simp: nth_eq_iff_index_eq)
  then show "set (done_result items S) = {int i | i. i < length items \<and> items ! i \<in> set S}"
    unfolding set_done_result by blast
qed

text \<open>The theorem at work: toggle everything under the empty filter, then \<open>:done\<close>.\<close>

theorem done_returns_first_indices_witness:
  "run_rounds ascii_lower [deploy_item, test_item] [] [(Submitted [], Submitted [TOGGLE])]
     = Continue [deploy_item, test_item]
   \<and> trim DONE = DONE
   \<and> distinct [deploy_item, test_item]
   \<and> selectWithEnquirerMulti ascii_lower [deploy_item, test_item]
        [(Submitted [], Submitted [TOGGLE]), (Submitted DONE, Aborted)] = Some [0, 1]
   \<and> set (done_result [deploy_item, test_item] [deploy_item, test_item]) =
        {int i | i. i < length [deploy_item, test_item] \<and> [deploy_item, test_item] ! i \<in> set [deploy_item, test_item]}"
proof -
  have h1: "run_rounds ascii_lower [deploy_item, test_item] [] [(Submitted [], Submitted [TOGGLE])]
     = Continue [deploy_item, test_item]"
    by (simp add: run_simps)
  have h2: "trim DONE = DONE" by (simp add: run_simps)
  have h3: "distinct [deploy_item, test_item]" by (simp add: run_simps)
  have e: "done_result [deploy_item, test_item] [deploy_item, test_item] = [0, 1]"
    by (simp add: run_simps)
  note t = done_returns_first_indices_of_members[OF h1 h2, of Aborted]
  from t have c1: "selectWithEnquirerMulti ascii_lower [deploy_item, test_item]
        [(Submitted [], Submitted [TOGGLE]), (Submitted DONE, Aborted)] = Some [0, 1]"
    unfolding e by simp
  from t h3 have c2: "set (done_result [deploy_item, test_item] [deploy_item, test_item]) =
        {int i | i. i < length [deploy_item, test_item] \<and> [deploy_item, test_item] ! i \<in> set [deploy_item, test_item]}"
    by blast
  show ?thesis using h1 h2 h3 c1 c2 by blast
qed

text \<open>
  C1 as stated fails when a display string occurs twice: after selecting \<open>a\<close> in the
  list \<open>[a, a]\<close> the display string at index 1 is a member of the selection state, yet
  only index 0 is returned.
\<close>

theorem done_result_duplicates_counterexample:
  "run_rounds ascii_lower [str ''a'', str ''a''] [] [(Submitted [], Submitted [TOGGLE])]
     = Continue [str ''a'']
   \<and> [str ''a'', str ''a''] ! 1 \<in> set [str ''a'']
   \<and> selectWithEnquirerMulti ascii_lower [str ''a'', str ''a'']
        [(Submitted [], Submitted [TOGGLE]), (Submitted DONE, Aborted)] = Some [0]
   \<and> (1 :: int) \<notin> set [0]"
  by (simp add: run_simps)






text \<open>
  C6. The visible subset is the list of (item, original index) pairs, in the original
  order, whose lower-cased display string contains the lower-cased query as a contiguous
  run; the query of a round is the trimmed reply to the filter prompt; the empty query
  shows every item; and the query \<open>de\<close> shows only the first of the two example items.
\<close>

theorem visible_subset_is_case_insensitive_substring_filter:
  "visible_items lower items q =
     filter (\<lambda>(it, idx). \<exists>ps ss. lower it = ps @ lower q @ ss) (zip items [0 ..< length items])
   \<and> (filter_step lower items sel (Submitted raw) = FPick visible \<longrightarrow>
        visible = visible_items lower items (trim raw))
   \<and> (lower [] = [] \<longrightarrow> visible_items lower items [] = zip items [0 ..< length items])
   \<and> visible_items ascii_lower [deploy_item, test_item] (str ''de'') = [(deploy_item, 0)]"
proof (intro conjI impI)
  show "visible_items lower items q =
     filter (\<lambda>(it, idx). \<exists>ps ss. lower it = ps @ lower q @ ss) (zip items [0 ..< length items])"
    by (rule visible_items_eq)
next
  assume "filter_step lower items sel (Submitted raw) = FPick visible"
  then show "visible = visible_items lower items (trim raw)"
    by (auto simp: filter_step_def Let_def split: if_splits)
next
  assume "lower [] = []"
  then show "visible_items lower items [] = zip items [0 ..< length items]"
    by (simp add: visible_items_def)
next
  show "visible_items ascii_lower [deploy_item, test_item] (str ''de'') = [(deploy_item, 0)]"
    by (simp add: run_simps)
qed

text \<open>The theorem at work: an upper-case query with blanks around it, and the empty query.\<close>

theorem visible_subset_witness:
  "filter_step ascii_lower [deploy_item, test_item] [] (Submitted (str '' DE '')) = FPick [(deploy_item, 0)]
   \<and> [(deploy_item, 0 :: nat)] = visible_items ascii_lower [deploy_item, test_item] (trim (str '' DE ''))
   \<and> ascii_lower [] = []
   \<and> visible_items ascii_lower [deploy_item, test_item] [] = [(deploy_item, 0), (test_item, 1)]"
proof -
  have h1: "filter_step ascii_lower [deploy_item, test_item] [] (Submitted (str '' DE '')) = FPick [(deploy_item, 0)]"
    by (simp add: run_simps)
  have h2: "ascii_lower [] = []" by (simp add: ascii_lower_def)
  note t = visible_subset_is_case_insensitive_substring_filter
    [of ascii_lower "[deploy_item, test_item]" "[]" "[]" "str '' DE ''" "[(deploy_item, 0)]"]
  from t h1 have c1: "[(deploy_item, 0 :: nat)] = visible_items ascii_lower [deploy_item, test_item] (trim (str '' DE ''))"
    by blast
  from t h2 have "visible_items ascii_lower [deploy_item, test_item] [] = zip [deploy_item, test_item] [0 ..< length [deploy_item, test_item]]"
    by blast
  then have c2: "visible_items ascii_lower [deploy_item, test_item] [] = [(deploy_item, 0), (test_item, 1)]"
    by (simp add: upt_rec)
  show ?thesis using h1 h2 c1 c2 by blast
qed

text \<open>
  C4. Over any run of rounds whose filters the display string \<open>x\<close> does not match, its
  membership in the selection state stays what it was, whatever is picked in those
  rounds; and when a later filter shows \<open>x\<close> again, its entry is presented pre-selected
  exactly when \<open>x\<close> was selected before those rounds: the presented list is the toggle
  entry, the separator, and one entry per visible item in order, flagged with the item's
  current membership, so every item entry with value \<open>x\<close> carries the flag
  \<open>x \<in> set sel\<close> and no other. (\<open>:reset\<close> is a command, not a filter: the rounds
  here are those with a filter query.)
\<close>

theorem selection_outside_visible_subset_unchanged:
  assumes "rounds_ok lower items sel rs"
      and "run_rounds lower items sel rs = Continue sel'"
      and "list_all (\<lambda>r. case fst r of Aborted \<Rightarrow> False
             | Submitted raw \<Rightarrow> trim raw \<noteq> RESET \<and> \<not> js_includes (lower x) (lower (trim raw))) rs"
  shows "(x \<in> set sel') = (x \<in> set sel)
    \<and> (filter_step lower items sel' f = FPick visible \<and> x \<in> fst ` set visible \<longrightarrow>
          Choice x x (x \<in> set sel) \<in> set (choices visible sel'))
    \<and> choices visible sel' =
          Choice TOGGLE TOGGLE False # Separator #
          map (\<lambda>(it, idx). Choice it it (it \<in> set sel')) visible
    \<and> (\<forall>c \<in> set (drop 2 (choices visible sel')).
          ch_value c = x \<longrightarrow> c = Choice x x (x \<in> set sel))"
proof -
  have m: "(x \<in> set sel') = (x \<in> set sel)"
    by (rule run_rounds_frame[OF assms])
  have "Choice x x (x \<in> set sel') \<in> set (choices visible sel')" if "x \<in> fst ` set visible"
    by (rule choices_prechecked[OF that])
  then have p: "filter_step lower items sel' f = FPick visible \<and> x \<in> fst ` set visible \<longrightarrow>
          Choice x x (x \<in> set sel) \<in> set (choices visible sel')"
    using m by simp
  have e: "choices visible sel' =
          Choice TOGGLE TOGGLE False # Separator #
          map (\<lambda>(it, idx). Choice it it (it \<in> set sel')) visible"
    by (rule choices_entries)
  have q: "\<forall>c \<in> set (drop 2 (choices visible sel')).
          ch_value c = x \<longrightarrow> c = Choice x x (x \<in> set sel)"
  proof (intro ballI impI)
    fix c assume "c \<in> set (drop 2 (choices visible sel'))" "ch_value c = x"
    then have "c = Choice x x (x \<in> set sel')" by (rule choices_item_entry)
    then show "c = Choice x x (x \<in> set sel)" using m by simp
  qed
  show ?thesis by (intro conjI m p e q)
qed

text \<open>
  The theorem at work: \<open>Deploy\<close> is selected, two rounds under the filter \<open>test\<close>
  select and unselect \<open>Test\<close>, and the filter \<open>dep\<close> then shows \<open>Deploy\<close> checked,
  as the only item entry.
\<close>

theorem selection_outside_visible_witness:
  "rounds_ok ascii_lower [deploy_item, test_item] [deploy_item] ex_hidden_rounds
   \<and> run_rounds ascii_lower [deploy_item, test_item] [deploy_item] ex_hidden_rounds = Continue [deploy_item]
   \<and> list_all (\<lambda>r. case fst r of Aborted \<Rightarrow> False
         | Submitted raw \<Rightarrow> trim raw \<noteq> RESET
             \<and> \<not> js_includes (ascii_lower deploy_item) (ascii_lower (trim raw))) ex_hidden_rounds
   \<and> filter_step ascii_lower [deploy_item, test_item] [deploy_item] (Submitted (str ''dep''))
        = FPick [(deploy_item, 0)]
   \<and> deploy_item \<in> fst ` set [(deploy_item, 0 :: nat)]
   \<and> Choice deploy_item deploy_item (deploy_item \<in> set [deploy_item])
        \<in> set (choices [(deploy_item, 0)] [deploy_item])
   \<and> choices [(deploy_item, 0)] [deploy_item] =
        [Choice TOGGLE TOGGLE False, Separator, Choice deploy_item deploy_item True]
   \<and> Choice deploy_item deploy_item True \<in> set (drop 2 (choices [(deploy_item, 0)] [deploy_item]))
   \<and> ch_value (Choice deploy_item deploy_item True) = deploy_item
   \<and> Choice deploy_item deploy_item True = Choice deploy_item deploy_item (deploy_item \<in> set [deploy_item])"
proof -
  have h1: "rounds_ok ascii_lower [deploy_item, test_item] [deploy_item] ex_hidden_rounds"
    by (simp add: ex_hidden_rounds_def run_simps)
  have h2: "run_rounds ascii_lower [deploy_item, test_item] [deploy_item] ex_hidden_rounds = Continue [deploy_item]"
    by (simp add: ex_hidden_rounds_def run_simps)
  have h3: "list_all (\<lambda>r. case fst r of Aborted \<Rightarrow> False
         | Submitted raw \<Rightarrow> trim raw \<noteq> RESET
             \<and> \<not> js_includes (ascii_lower deploy_item) (ascii_lower (trim raw))) ex_hidden_rounds"
    by (simp add: ex_hidden_rounds_def run_simps)
  have h4: "filter_step ascii_lower [deploy_item, test_item] [deploy_item] (Submitted (str ''dep''))
        = FPick [(deploy_item, 0)]"
    by (simp add: run_simps)
  have h5: "deploy_item \<in> fst ` set [(deploy_item, 0 :: nat)]" by simp
  note t = selection_outside_visible_subset_unchanged[OF h1 h2 h3,
      where f = "Submitted (str ''dep'')" and visible = "[(deploy_item, 0)]"]
  have c: "Choice deploy_item deploy_item (deploy_item \<in> set [deploy_item])
        \<in> set (choices [(deploy_item, 0)] [deploy_item])"
    using conjunct1[OF conjunct2[OF t]] h4 h5 by blast
  have e: "choices [(deploy_item, 0)] [deploy_item] =
        [Choice TOGGLE TOGGLE False, Separator, Choice deploy_item deploy_item True]"
    using conjunct1[OF conjunct2[OF conjunct2[OF t]]] by simp
  have h6: "Choice deploy_item deploy_item True \<in> set (drop 2 (choices [(deploy_item, 0)] [deploy_item]))"
    by (simp only: e) simp
  have h7: "ch_value (Choice deploy_item deploy_item True) = deploy_item" by simp
  have d: "Choice deploy_item deploy_item True = Choice deploy_item deploy_item (deploy_item \<in> set [deploy_item])"
    using conjunct2[OF conjunct2[OF conjunct2[OF t]]] h6 h7 by blast
  show ?thesis by (intro conjI h1 h2 h3 h4 h5 c e h6 h7 d)
qed

text \<open>
  C5. At every point of a session (after any number \<open>n\<close> of its rounds) every member of
  the selection state is a display string of the item list; so \<open>indexOf\<close> is never
  negative on a member, and the guard at \<open>:done\<close> drops nothing. The picks are those
  the prompt can resolve with: entries among the presented choices.
\<close>

theorem selection_state_members_are_items:
  assumes "rounds_ok lower items [] rs"
      and "run_rounds lower items [] (take n rs) = Continue S"
  shows "set S \<subseteq> set items
    \<and> (\<forall>v \<in> set S. 0 \<le> indexOf items v)
    \<and> done_result items S = map (indexOf items) S"
proof -
  have ok: "rounds_ok lower items [] (take n rs)"
    by (rule rounds_ok_take[OF assms(1)])
  have s: "set S \<subseteq> set items"
    by (rule run_rounds_invariant[OF ok _ assms(2)]) simp
  have i: "\<forall>v \<in> set S. 0 \<le> indexOf items v"
    using s by (auto simp: indexOf_nonneg_iff)
  show ?thesis using s i done_result_members[OF s] by (intro conjI)
qed

text \<open>The theorem at work, three rounds into a session of four.\<close>

theorem selection_state_members_witness:
  "rounds_ok ascii_lower [deploy_item, test_item] [] ex_rounds
   \<and> run_rounds ascii_lower [deploy_item, test_item] [] (take 3 ex_rounds) = Continue [deploy_item, test_item]
   \<and> set [deploy_item, test_item] \<subseteq> set [deploy_item, test_item]
   \<and> done_result [deploy_item, test_item] [deploy_item, test_item]
        = map (indexOf [deploy_item, test_item]) [deploy_item, test_item]"
proof -
  have h1: "rounds_ok ascii_lower [deploy_item, test_item] [] ex_rounds"
    by (simp add: ex_rounds_def run_simps)
  have h2: "run_rounds ascii_lower [deploy_item, test_item] [] (take 3 ex_rounds) = Continue [deploy_item, test_item]"
    by (simp add: ex_rounds_def run_simps)
  note t = selection_state_members_are_items[OF h1 h2]
  show ?thesis by (intro conjI h1 h2 conjunct1[OF t] conjunct2[OF conjunct2[OF t]])
qed

section \<open>The claims about the fuzzy finder and the dispatch loop\<close>

text \<open>
  C10. Whatever the fuzzy finder writes, the resolved list holds only numbers \<open>i\<close> with
  \<open>0 \<le> i < length items\<close>: a line whose leading field is not a number, is below 1, or
  is beyond the end of the list contributes nothing. This holds for \<open>selectWithFzf\<close> of
  \<open>src/index.js\<close> and for the two other variants in the repository.
\<close>

theorem fzf_indices_within_item_list:
  "(\<forall>x \<in> set (fzf_close items out). \<exists>i. x = Num i \<and> 0 \<le> i \<and> i < int (length items))
   \<and> (selectWithFzf fzf items out = Some idxs \<longrightarrow>
        (\<forall>x \<in> set idxs. \<exists>i. x = Num i \<and> 0 \<le> i \<and> i < int (length items)))
   \<and> (selectWithFzf_select_all fzf items multi out = Some idxs \<longrightarrow>
        (\<forall>x \<in> set idxs. \<exists>i. x = Num i \<and> 0 \<le> i \<and> i < int (length items)))
   \<and> (selectWithFzf_ctrl_a fzf items out = Some idxs \<longrightarrow>
        (\<forall>x \<in> set idxs. \<exists>i. x = Num i \<and> 0 \<le> i \<and> i < int (length items)))"
proof -
  let ?ok = "\<lambda>xs. \<forall>x \<in> set xs. \<exists>i. x = Num i \<and> 0 \<le> i \<and> i < int (length items)"
  have f: "?ok (filter (\<lambda>i. in_range i (length items)) xs)" for xs
    by (auto dest: in_range_Num)
  have e: "?ok []" by simp
  have al: "?ok (map (\<lambda>i. Num (int i)) [0 ..< length items])"
    by auto
  have a: "?ok (fzf_close items out)"
  proof (cases "trim out = []")
    case True
    then show ?thesis by (simp add: fzf_close_def)
  next
    case False
    then have eq: "fzf_close items out = filter (\<lambda>i. in_range i (length items))
             (map (\<lambda>line. num_minus_1 (parseInt (first_field line))) (js_split (trim out) [10]))"
      by (simp add: fzf_close_def)
    show ?thesis unfolding eq by (rule f)
  qed
  have b: "?ok (fzf_close_select_all items multi out)"
  proof (cases "trim out = []")
    case True
    then show ?thesis by (simp add: fzf_close_select_all_def)
  next
    case False
    define idxs where "idxs = map (\<lambda>line. parseInt (first_field line)) (js_split (trim out) [10])"
    have "fzf_close_select_all items multi out = map (\<lambda>i. Num (int i)) [0 ..< length items]
        \<or> fzf_close_select_all items multi out = filter (\<lambda>i. in_range i (length items)) (map num_minus_1 idxs)
        \<or> fzf_close_select_all items multi out = filter (\<lambda>i. in_range i (length items)) idxs"
      using False by (simp add: fzf_close_select_all_def Let_def idxs_def)
    then show ?thesis
    proof (elim disjE)
      assume eq: "fzf_close_select_all items multi out = map (\<lambda>i. Num (int i)) [0 ..< length items]"
      show ?thesis unfolding eq by (rule al)
    next
      assume eq: "fzf_close_select_all items multi out = filter (\<lambda>i. in_range i (length items)) (map num_minus_1 idxs)"
      show ?thesis unfolding eq by (rule f)
    next
      assume eq: "fzf_close_select_all items multi out = filter (\<lambda>i. in_range i (length items)) idxs"
      show ?thesis unfolding eq by (rule f)
    qed
  qed
  have c: "?ok (fzf_close_ctrl_a items out)"
  proof (cases "trim out = []")
    case True
    then show ?thesis by (simp add: fzf_close_ctrl_a_def)
  next
    case False
    then have eq: "fzf_close_ctrl_a items out = filter (\<lambda>i. in_range i (length items))
             (map index_of_line (js_split (trim out) [10]))"
      by (simp add: fzf_close_ctrl_a_def)
    show ?thesis unfolding eq by (rule f)
  qed
  have 1: "?ok idxs" if "selectWithFzf fzf items out = Some idxs"
  proof -
    from that have "idxs = [] \<or> idxs = fzf_close items out"
      by (auto simp: selectWithFzf_def split: if_splits)
    then show ?thesis using a e by blast
  qed
  have 2: "?ok idxs" if "selectWithFzf_select_all fzf items multi out = Some idxs"
  proof -
    from that have "idxs = [] \<or> idxs = fzf_close_select_all items multi out"
      by (auto simp: selectWithFzf_select_all_def split: if_splits)
    then show ?thesis using b e by blast
  qed
  have 3: "?ok idxs" if "selectWithFzf_ctrl_a fzf items out = Some idxs"
  proof -
    from that have "idxs = [] \<or> idxs = fzf_close_ctrl_a items out"
      by (auto simp: selectWithFzf_ctrl_a_def split: if_splits)
    then show ?thesis using c e by blast
  qed
  show ?thesis using a 1 2 3 by (intro conjI impI)
qed

text \<open>
  The theorem at work: of the lines 2, foo, 0, 7 and 1 for two items, only 2 and 1
  come back, as the indices 1 and 0 (in the select-all variant line 0 stands for all).
\<close>

theorem fzf_indices_witness:
  "selectWithFzf True [str ''a'', str ''b''] ex_fzf_out = Some [Num 1, Num 0]
   \<and> selectWithFzf_select_all True [str ''a'', str ''b''] True ex_fzf_out = Some [Num 0, Num 1]
   \<and> selectWithFzf_ctrl_a True [str ''a'', str ''b''] ex_fzf_out = Some [Num 1, Num 0]
   \<and> Num 1 \<in> set [Num 1, Num 0]
   \<and> (\<exists>i. Num 1 = Num i \<and> 0 \<le> i \<and> i < int (length [str ''a'', str ''b'']))"
proof -
  have h: "selectWithFzf True [str ''a'', str ''b''] ex_fzf_out = Some [Num 1, Num 0]"
    by (simp add: ex_fzf_out_def cli_simps)
  have h2: "selectWithFzf_select_all True [str ''a'', str ''b''] True ex_fzf_out = Some [Num 0, Num 1]"
    by (simp add: ex_fzf_out_def cli_simps)
  have h3: "selectWithFzf_ctrl_a True [str ''a'', str ''b''] ex_fzf_out = Some [Num 1, Num 0]"
    by (simp add: ex_fzf_out_def cli_simps)
  have m: "Num 1 \<in> set [Num 1, Num 0]" by simp
  note t = fzf_indices_within_item_list[of "[str ''a'', str ''b'']" ex_fzf_out True "[Num 1, Num 0]"]
  have c: "\<exists>i. Num 1 = Num i \<and> 0 \<le> i \<and> i < int (length [str ''a'', str ''b''])"
    using conjunct1[OF conjunct2[OF t]] h m by blast
  show ?thesis by (intro conjI h h2 h3 m c)
qed

text \<open>
  C8. Whatever the external tool answers, the dispatch loop calls it exactly once for
  each chosen workflow, in order, with that workflow's derived path and the selected
  ref; a failed call is followed by the failure report and then by the next workflow;
  the loop ends with the closing message and returns normally.
\<close>

theorem dispatch_attempts_every_chosen_workflow:
  "fst (dispatch exec ref (map Some ws) st) =
      concat (map2 (item_trace ref) ws (exec_outcomes exec ref ws st)) @ [DoneMsg]
   \<and> fst (snd (dispatch exec ref (map Some ws) st)) = Returned
   \<and> length (exec_outcomes exec ref ws st) = length ws
   \<and> [(p, r). GhWorkflowRun p r ok \<leftarrow> fst (dispatch exec ref (map Some ws) st)] =
        map (\<lambda>w. (dispatch_path w, ref)) ws"
proof -
  have l: "length (exec_outcomes exec ref ws st) = length ws"
    by (induction ws arbitrary: st) (auto split: prod.splits)
  have t: "fst (dispatch exec ref (map Some ws) st) =
      concat (map2 (item_trace ref) ws (exec_outcomes exec ref ws st)) @ [DoneMsg]"
    by (subst dispatch_trace) simp
  have r: "fst (snd (dispatch exec ref (map Some ws) st)) = Returned"
    by (subst dispatch_trace) simp
  have c: "[(p, r). GhWorkflowRun p r ok \<leftarrow> concat (map2 (item_trace ref) ws oks) @ [DoneMsg]] =
        map (\<lambda>w. (dispatch_path w, ref)) ws" if "length oks = length ws" for oks
    using that
  proof (induction ws arbitrary: oks)
    case Nil
    then show ?case by simp
  next
    case (Cons w ws)
    then obtain ok oks' where "oks = ok # oks'" "length oks' = length ws"
      by (cases oks) auto
    then show ?case using Cons.IH[of oks'] by (simp add: item_trace_def)
  qed
  show ?thesis using t r l c[OF l] by simp
qed

text \<open>The theorem at work: two workflows, the first call fails, the second is still made.\<close>

theorem dispatch_attempts_witness:
  "exec_outcomes first_call_fails (Some (str ''main'')) [deploy_item, test_item] 0 = [False, True]
   \<and> fst (dispatch first_call_fails (Some (str ''main'')) (map Some [deploy_item, test_item]) 0) =
      [Dispatching (Some (str ''.github/workflows/deploy.yml'')) (Some (str ''main'')),
       GhWorkflowRun (Some (str ''.github/workflows/deploy.yml'')) (Some (str ''main'')) False,
       Failed,
       Dispatching (Some (str ''.github/workflows/test.yml'')) (Some (str ''main'')),
       GhWorkflowRun (Some (str ''.github/workflows/test.yml'')) (Some (str ''main'')) True,
       DoneMsg]"
proof -
  have p1: "dispatch_path deploy_item = Some (str ''.github/workflows/deploy.yml'')"
    by (simp add: cli_simps)
  have p2: "dispatch_path test_item = Some (str ''.github/workflows/test.yml'')"
    by (simp add: cli_simps)
  have o: "exec_outcomes first_call_fails (Some (str ''main'')) [deploy_item, test_item] 0 = [False, True]"
    by (simp add: first_call_fails_def)
  note t = dispatch_attempts_every_chosen_workflow
    [of first_call_fails "Some (str ''main'')" "[deploy_item, test_item]" 0]
  have "fst (dispatch first_call_fails (Some (str ''main'')) (map Some [deploy_item, test_item]) 0) =
      concat (map2 (item_trace (Some (str ''main''))) [deploy_item, test_item] [False, True]) @ [DoneMsg]"
    using conjunct1[OF t] by (simp only: o)
  then have c: "fst (dispatch first_call_fails (Some (str ''main'')) (map Some [deploy_item, test_item]) 0) =
      [Dispatching (Some (str ''.github/workflows/deploy.yml'')) (Some (str ''main'')),
       GhWorkflowRun (Some (str ''.github/workflows/deploy.yml'')) (Some (str ''main'')) False,
       Failed,
       Dispatching (Some (str ''.github/workflows/test.yml'')) (Some (str ''main'')),
       GhWorkflowRun (Some (str ''.github/workflows/test.yml'')) (Some (str ''main'')) True,
       DoneMsg]"
    by (simp add: item_trace_def p1 p2)
  show ?thesis by (intro conjI o c)
qed

text \<open>
  C7 at a failing input. With the fuzzy finder installed and the ref selection
  interrupted, the session goes on with an undefined ref and dispatches both workflows
  with it; without the fuzzy finder, interrupting the built-in ref prompt rejects the
  session's promise.
\<close>

theorem aborted_ref_selection_continues_with_undefined_ref:
  "runCLI ex_env_ref_aborted =
     ([SelectedRef None,
       WillDispatch [Some deploy_item, Some test_item],
       Dispatching (Some (str ''.github/workflows/deploy.yml'')) None,
       GhWorkflowRun (Some (str ''.github/workflows/deploy.yml'')) None False,
       Failed,
       Dispatching (Some (str ''.github/workflows/test.yml'')) None,
       GhWorkflowRun (Some (str ''.github/workflows/test.yml'')) None True,
       DoneMsg], Returned, 2)
   \<and> runCLI ex_env_prompt_aborted = ([], Rejected, 0)"
  by (simp add: cli_simps)

text \<open>
  C9 at a failing input. For the workflow whose name is \<open>Build\<close>, the display separator, \<open>prod\<close>, the derived path is \<open>prod\<close>, not the record's path, and that
  is what the external tool is called with.
\<close>

theorem separator_in_name_dispatches_wrong_path:
  "display ex_build_prod =
     str ''Build '' @ [8212] @ str '' prod '' @ [8212] @ str '' .github/workflows/build.yml''
   \<and> wf_path ex_build_prod = str ''.github/workflows/build.yml''
   \<and> dispatch_path (display ex_build_prod) = Some (str ''prod'')
   \<and> runCLI ex_env_build_prod =
     ([SelectedRef (Some (str ''main'')),
       WillDispatch [Some (display ex_build_prod)],
       Dispatching (Some (str ''prod'')) (Some (str ''main'')),
       GhWorkflowRun (Some (str ''prod'')) (Some (str ''main'')) False,
       Failed,
       DoneMsg], Returned, 1)"
  by (simp add: cli_simps)

end
